theory Spec2Isabelle
  imports Main "HOL-Library.Word"
begin

section \<open>Wakeup reasons: the state of kernel/power/wakeup\_reason.c\<close>

text \<open>
  The file keeps its state in static variables. They are gathered in one record that
  every function takes and returns. \<open>unsigned long\<close> is a word whose width \<open>'w\<close> is
  that of the target; \<open>int\<close> values that are only stored, compared and printed (interrupt
  numbers, \<open>irqcount\<close>) are integers, with the array bound of \<open>irq_list\<close> checked where
  the array is written.
\<close>

subsection \<open>Types declared in headers\<close>

text \<open>\<open>struct timespec\<close>: seconds and nanoseconds, both \<open>long\<close>.\<close>

record timespec =
  tv_sec :: int
  tv_nsec :: int

text \<open>
  \<open>struct wakeup_irq_node\<close> is declared in \<open>linux/wakeup_reason.h\<close>. The functions of
  this file read its fields \<open>irq\<close>, \<open>handled\<close> and \<open>child\<close> and link nodes through
  \<open>next\<close>. A node is addressed by \<open>ident\<close> (its place in the order of creation, which
  stands for its address); \<open>parent\<close> and \<open>child\<close> hold the idents of the node it is
  nested in and of the nodes nested in it, \<open>child = []\<close> being the null pointer.
\<close>

record wakeup_irq_node =
  ident :: nat
  irq :: int
  handled :: bool
  parent :: "nat option"
  child :: "nat list"

subsection \<open>The static variables\<close>

record (overloaded) ('w::len) wakeup_state =
  irq_list :: "int list"
  irqcount :: int
  suspend_abort :: bool
  abort_reason :: string
  wakeup_ready_timeout :: "'w word"
  wakeup_ready_wait :: "'w word"
  wakeup_ready_nowait :: "'w word"
  last_xtime :: timespec
  curr_xtime :: timespec
  last_stime :: timespec
  curr_stime :: timespec
  suspend_count :: "'w word"
  abort_count :: "'w word"
  base_irq_nodes :: "wakeup_irq_node list"
  cur_irq_tree :: "nat option"
  cur_irq_tree_depth :: nat
  wakeup_irqs :: "wakeup_irq_node list"
  log_wakeups :: bool

text \<open>
  \<open>suspend_count\<close> and \<open>abort_count\<close> are read by \<open>suspend_since_boot_show\<close> and
  written nowhere in this file. \<open>base_irq_nodes\<close> is the forest of interrupt nodes, held
  as the list of its nodes in the order they were created (\<open>[]\<close> is the null forest);
  \<open>log_wakeups\<close> is the flag behind \<open>logging_wakeup_reasons()\<close>.
\<close>

definition MAX_WAKEUP_REASON_IRQS :: int where
  "MAX_WAKEUP_REASON_IRQS = 32"

definition zero_time :: timespec where
  "zero_time = \<lparr>tv_sec = 0, tv_nsec = 0\<rparr>"

text \<open>The state at boot: static storage is zero-initialised.\<close>

definition init_state :: "'w::len wakeup_state" where
  "init_state =
     \<lparr>irq_list = replicate 32 0, irqcount = 0, suspend_abort = False, abort_reason = [],
      wakeup_ready_timeout = 0, wakeup_ready_wait = 0, wakeup_ready_nowait = 0,
      last_xtime = zero_time, curr_xtime = zero_time,
      last_stime = zero_time, curr_stime = zero_time,
      suspend_count = 0, abort_count = 0,
      base_irq_nodes = [], cur_irq_tree = None, cur_irq_tree_depth = 0,
      wakeup_irqs = [], log_wakeups = False\<rparr>"

subsection \<open>Faults and kernel log lines\<close>

text \<open>
  \<open>BUG_ON\<close> stops the kernel; a write past the end of \<open>irq_list\<close> is undefined. Both
  are values of the model, so that a function that returns \<open>Inr\<close> has done neither.
\<close>

datatype fault = BUG | Out_of_bounds

text \<open>The two lines \<open>log_wakeup_reason\<close> prints, by their format strings.\<close>

datatype printk =
  Resume_caused_by_IRQ int "string option"
| Resume_caused_by_more_than int

section \<open>The flat list of interrupts\<close>

text \<open>
  \<open>irq_to_desc(irq)\<close> belongs to the interrupt subsystem. The functions below take
  \<open>irq_name\<close>, which gives \<open>desc->action->name\<close> when \<open>desc\<close>, \<open>desc->action\<close> and the
  name are all non-null.
\<close>

definition log_wakeup_reason ::
  "(int \<Rightarrow> string option) \<Rightarrow> int \<Rightarrow> 'w::len wakeup_state
     \<Rightarrow> fault + (printk list \<times> 'w wakeup_state)" where
  "log_wakeup_reason irq_name i s =
     (if irqcount s = MAX_WAKEUP_REASON_IRQS then
        Inr ([Resume_caused_by_IRQ i (irq_name i),
              Resume_caused_by_more_than MAX_WAKEUP_REASON_IRQS], s)
      else if 0 \<le> irqcount s \<and> nat (irqcount s) < length (irq_list s) then
        Inr ([Resume_caused_by_IRQ i (irq_name i)],
             s\<lparr>irq_list := (irq_list s)[nat (irqcount s) := i],
               irqcount := irqcount s + 1\<rparr>)
      else Inl Out_of_bounds)"

text \<open>
  \<open>vsnprintf(buf, size, fmt, args)\<close> leaves in \<open>buf\<close> the first \<open>size - 1\<close> characters
  of the formatted text and a terminating zero, and writes nothing when \<open>size\<close> is 0.
  The formatted text is what the caller's format and arguments expand to.
\<close>

definition vsnprintf :: "string \<Rightarrow> nat \<Rightarrow> string \<Rightarrow> string" where
  "vsnprintf buf sz formatted = (if sz = 0 then buf else take (sz - 1) formatted)"

text \<open>
  \<open>MAX_SUSPEND_ABORT_LEN\<close> is defined in a header; it is the first argument here.
\<close>

definition log_suspend_abort_reason ::
  "nat \<Rightarrow> string \<Rightarrow> 'w::len wakeup_state \<Rightarrow> 'w wakeup_state" where
  "log_suspend_abort_reason MAX_SUSPEND_ABORT_LEN formatted s =
     (if suspend_abort s then s
      else s\<lparr>suspend_abort := True,
             abort_reason := vsnprintf (abort_reason s) MAX_SUSPEND_ABORT_LEN formatted\<rparr>)"

subsection \<open>Decimal output\<close>

definition digit :: "nat \<Rightarrow> char" where
  "digit d = ''0123456789'' ! d"

text \<open>\<open>%lu\<close> of a value already read as unsigned.\<close>

fun dec :: "nat \<Rightarrow> string" where
  "dec n = (if n < 10 then [digit n] else dec (n div 10) @ [digit (n mod 10)])"

declare dec.simps [simp del]

text \<open>\<open>%d\<close>.\<close>

definition dec_int :: "int \<Rightarrow> string" where
  "dec_int i = (if i < 0 then CHR ''-'' # dec (nat (- i)) else dec (nat i))"

text \<open>\<open>%09lu\<close>: at least nine digits, padded with zeros on the left.\<close>

definition dec09 :: "nat \<Rightarrow> string" where
  "dec09 n = replicate (9 - length (dec n)) CHR ''0'' @ dec n"

definition newline :: char where
  "newline = CHR 0x0A"

subsection \<open>The read endpoint \<open>last_resume_reason\<close>\<close>

text \<open>The loop over \<open>irq_list[0 .. irqcount - 1]\<close>, one \<open>sprintf\<close> per entry.\<close>

fun show_irqs :: "(int \<Rightarrow> string option) \<Rightarrow> int list \<Rightarrow> string" where
  "show_irqs irq_name [] = []"
| "show_irqs irq_name (i # is) =
     (case irq_name i of
        Some name \<Rightarrow> dec_int i @ '' '' @ name @ [newline]
      | None \<Rightarrow> dec_int i @ [newline]) @ show_irqs irq_name is"

definition last_resume_reason_show ::
  "(int \<Rightarrow> string option) \<Rightarrow> 'w::len wakeup_state \<Rightarrow> string" where
  "last_resume_reason_show irq_name s =
     (if suspend_abort s then ''Abort: '' @ abort_reason s
      else show_irqs irq_name (take (nat (irqcount s)) (irq_list s)))"

section \<open>Suspend times\<close>

definition NSEC_PER_SEC :: int where
  "NSEC_PER_SEC = 1000000000"

text \<open>
  Modelled from the spec: \<open>timespec_sub\<close> and the \<open>set_normalized_timespec\<close> it calls
  come from \<open>linux/time.h\<close>, which is not among the sources. Section 4.4 of the spec
  gives each duration as the difference of two timestamps; on pairs of seconds and
  nanoseconds that is the difference of the seconds and of the nanoseconds, carried so
  that the nanoseconds end in \<open>0 .. NSEC_PER_SEC - 1\<close>.
\<close>

definition set_normalized_timespec :: "int \<Rightarrow> int \<Rightarrow> timespec" where
  "set_normalized_timespec sec nsec =
     \<lparr>tv_sec = sec + nsec div NSEC_PER_SEC, tv_nsec = nsec mod NSEC_PER_SEC\<rparr>"

definition timespec_sub :: "timespec \<Rightarrow> timespec \<Rightarrow> timespec" where
  "timespec_sub lhs rhs =
     set_normalized_timespec (tv_sec lhs - tv_sec rhs) (tv_nsec lhs - tv_nsec rhs)"

text \<open>A timestamp in nanoseconds, to compare two of them.\<close>

definition ts_ns :: "timespec \<Rightarrow> int" where
  "ts_ns t = tv_sec t * NSEC_PER_SEC + tv_nsec t"

text \<open>The three locals of \<open>last_suspend_time_show\<close>.\<close>

definition sleep_time :: "'w::len wakeup_state \<Rightarrow> timespec" where
  "sleep_time s = timespec_sub (curr_stime s) (last_stime s)"

definition total_time :: "'w::len wakeup_state \<Rightarrow> timespec" where
  "total_time s = timespec_sub (curr_xtime s) (last_xtime s)"

definition suspend_resume_time :: "'w::len wakeup_state \<Rightarrow> timespec" where
  "suspend_resume_time s = timespec_sub (total_time s) (sleep_time s)"

text \<open>
  \<open>%lu\<close> and \<open>%09lu\<close> are given \<open>long\<close> values: \<open>sprintf\<close> reads them as
  \<open>unsigned long\<close>, that is modulo \<open>2 ^ LENGTH('w)\<close>.
\<close>

definition fmt_lu :: "'w::len word \<Rightarrow> string" where
  "fmt_lu v = dec (unat v)"

definition fmt_09lu :: "'w::len word \<Rightarrow> string" where
  "fmt_09lu v = dec09 (unat v)"

definition last_suspend_time_show :: "'w::len wakeup_state \<Rightarrow> string" where
  "last_suspend_time_show s =
     fmt_lu (word_of_int (tv_sec (suspend_resume_time s)) :: 'w word) @ ''.'' @
     fmt_09lu (word_of_int (tv_nsec (suspend_resume_time s)) :: 'w word) @ '' '' @
     fmt_lu (word_of_int (tv_sec (sleep_time s)) :: 'w word) @ ''.'' @
     fmt_09lu (word_of_int (tv_nsec (sleep_time s)) :: 'w word) @ [newline]"

subsection \<open>The power-management notifier\<close>

datatype pm_event = PM_SUSPEND_PREPARE | PM_POST_SUSPEND | PM_OTHER

text \<open>
  \<open>get_xtime_and_monotonic_and_sleep_offset\<close> reads the clock: \<open>now\<close> is the wall time
  and the total sleep time it returns (the third value is ignored by the code).
\<close>

definition wakeup_reason_pm_event ::
  "pm_event \<Rightarrow> timespec \<times> timespec \<Rightarrow> 'w::len wakeup_state \<Rightarrow> 'w wakeup_state" where
  "wakeup_reason_pm_event pm_event now s =
     (case pm_event of
        PM_SUSPEND_PREPARE \<Rightarrow>
          s\<lparr>irqcount := 0, suspend_abort := False,
            last_xtime := fst now, last_stime := snd now\<rparr>
      | PM_POST_SUSPEND \<Rightarrow> s\<lparr>curr_xtime := fst now, curr_stime := snd now\<rparr>
      | PM_OTHER \<Rightarrow> s)"

section \<open>The tree of interrupt nodes\<close>

text \<open>
  Modelled from the spec: \<open>walk_irq_node_tree(root, visit, cookie)\<close> is called in this
  file and defined outside the sources. Section 4.1 of the spec has the collecting
  operations walk the whole forest and give the nodes in insertion order, and both
  visitors of this file push the node they keep on the front of their list
  (\<open>list_add\<close>); so the walk reaches every node once, the latest created first. As its
  callers show (\<open>found = !walk_irq_node_tree(base_irq_nodes, match_node, &irq)\<close>), it
  stops with false at the first node whose visit returns false and returns true
  otherwise.
\<close>

fun walk_nodes ::
  "wakeup_irq_node list \<Rightarrow> (wakeup_irq_node \<Rightarrow> 'c \<Rightarrow> bool \<times> 'c) \<Rightarrow> 'c \<Rightarrow> bool \<times> 'c" where
  "walk_nodes [] visit cookie = (True, cookie)"
| "walk_nodes (n # ns) visit cookie =
     (case visit n cookie of
        (True, cookie') \<Rightarrow> walk_nodes ns visit cookie'
      | (False, cookie') \<Rightarrow> (False, cookie'))"

definition walk_irq_node_tree ::
  "wakeup_irq_node list \<Rightarrow> (wakeup_irq_node \<Rightarrow> 'c \<Rightarrow> bool \<times> 'c) \<Rightarrow> 'c \<Rightarrow> bool \<times> 'c" where
  "walk_irq_node_tree root visit cookie = walk_nodes (rev root) visit cookie"

text \<open>The visitors. \<open>list_add(&n->next, head)\<close> puts \<open>n\<close> first in the list.\<close>

definition match_node :: "wakeup_irq_node \<Rightarrow> int \<Rightarrow> bool \<times> int" where
  "match_node n p = (irq n \<noteq> p, p)"

definition build_leaf_nodes ::
  "wakeup_irq_node \<Rightarrow> wakeup_irq_node list \<Rightarrow> bool \<times> wakeup_irq_node list" where
  "build_leaf_nodes n wakeups = (True, if child n = [] then n # wakeups else wakeups)"

definition build_unfinished_nodes ::
  "wakeup_irq_node \<Rightarrow> wakeup_irq_node list \<Rightarrow> bool \<times> wakeup_irq_node list" where
  "build_unfinished_nodes n unfinished =
     (True, if \<not> handled n then n # unfinished else unfinished)"

text \<open>
  Modelled from the spec: \<open>logging_wakeup_reasons()\<close> and
  \<open>stop_logging_wakeup_reasons()\<close> are defined outside the sources. They read and clear
  the flag that section 3 of the spec calls \<open>logging_active\<close>.
\<close>

definition logging_wakeup_reasons :: "'w::len wakeup_state \<Rightarrow> bool" where
  "logging_wakeup_reasons s = log_wakeups s"

definition stop_logging_wakeup_reasons :: "'w::len wakeup_state \<Rightarrow> 'w wakeup_state" where
  "stop_logging_wakeup_reasons s = s\<lparr>log_wakeups := False\<rparr>"

definition get_wakeup_reasons_nosync ::
  "'w::len wakeup_state \<Rightarrow> fault + (wakeup_irq_node list \<times> 'w wakeup_state)" where
  "get_wakeup_reasons_nosync s =
     (if logging_wakeup_reasons s then Inl BUG
      else
        let s' = s\<lparr>wakeup_irqs :=
                     snd (walk_irq_node_tree (base_irq_nodes s) build_leaf_nodes [])\<rparr>
        in Inr (wakeup_irqs s', s'))"

text \<open>
  \<open>wait_for_completion_timeout\<close> belongs to the scheduler. It blocks the caller while
  interrupt handlers go on, and returns 0 when the timeout ran out and the jiffies that
  were left otherwise. It is a parameter: from the timeout and the state at the call it
  gives the value returned and the state the handlers have left.

  The result is the pointer returned (\<open>None\<close> for \<open>NULL\<close>, \<open>Some\<close> of the contents of
  \<open>wakeup_irqs\<close> otherwise), the list \<open>unfinished\<close> as the call leaves it, and the
  state.
\<close>

definition get_wakeup_reasons ::
  "('w::len word \<Rightarrow> 'w wakeup_state \<Rightarrow> 'w word \<times> 'w wakeup_state) \<Rightarrow> 'w word
     \<Rightarrow> 'w wakeup_state
     \<Rightarrow> fault + (wakeup_irq_node list option \<times> wakeup_irq_node list \<times> 'w wakeup_state)" where
  "get_wakeup_reasons wait_for_completion_timeout timeout s =
     (if logging_wakeup_reasons s then
        (case (if timeout \<noteq> 0 then wait_for_completion_timeout timeout s else (0, s)) of
           (signalled, s1) \<Rightarrow>
             if signalled = 0 then
               let s2 = stop_logging_wakeup_reasons
                          (s1\<lparr>wakeup_ready_timeout := wakeup_ready_timeout s1 + 1\<rparr>)
               in Inr (None,
                       snd (walk_irq_node_tree (base_irq_nodes s2) build_unfinished_nodes []),
                       s2)
             else
               let time_waited = timeout - signalled;
                   s2 = (if wakeup_ready_wait s1 < time_waited
                         then s1\<lparr>wakeup_ready_wait := time_waited\<rparr> else s1)
               in (case get_wakeup_reasons_nosync s2 of
                     Inl f \<Rightarrow> Inl f
                   | Inr (wakeups, s3) \<Rightarrow> Inr (Some wakeups, [], s3)))
      else
        (case get_wakeup_reasons_nosync
                (s\<lparr>wakeup_ready_nowait := wakeup_ready_nowait s + 1\<rparr>) of
           Inl f \<Rightarrow> Inl f
         | Inr (wakeups, s3) \<Rightarrow> Inr (Some wakeups, [], s3)))"

text \<open>
  \<open>clear_wakeup_reasons\<close>: the walk with \<open>delete_node\<close> frees every node, after which
  the forest is null. The lock it takes has no part in a sequential model.
\<close>

definition clear_wakeup_reasons_nolock ::
  "'w::len wakeup_state \<Rightarrow> fault + 'w wakeup_state" where
  "clear_wakeup_reasons_nolock s =
     (if logging_wakeup_reasons s then Inl BUG
      else Inr (s\<lparr>base_irq_nodes := [], cur_irq_tree := None, cur_irq_tree_depth := 0,
                  wakeup_irqs := [], suspend_abort := False\<rparr>))"

definition clear_wakeup_reasons :: "'w::len wakeup_state \<Rightarrow> fault + 'w wakeup_state" where
  "clear_wakeup_reasons s = clear_wakeup_reasons_nolock s"

section \<open>Sequences of calls\<close>

text \<open>The calls of this file that write the state, with their arguments.\<close>

datatype 'u call =
  Log_wakeup_reason int
| Log_suspend_abort_reason string
| Get_wakeup_reasons 'u
| Clear_wakeup_reasons
| Wakeup_reason_pm_event pm_event timespec timespec

definition exec ::
  "(int \<Rightarrow> string option) \<Rightarrow> nat
     \<Rightarrow> ('w::len word \<Rightarrow> 'w wakeup_state \<Rightarrow> 'w word \<times> 'w wakeup_state)
     \<Rightarrow> 'w word call \<Rightarrow> 'w wakeup_state \<Rightarrow> fault + 'w wakeup_state" where
  "exec irq_name MAX_SUSPEND_ABORT_LEN wait_for_completion_timeout c s =
     (case c of
        Log_wakeup_reason i \<Rightarrow>
          (case log_wakeup_reason irq_name i s of
             Inl f \<Rightarrow> Inl f | Inr (lines, s') \<Rightarrow> Inr s')
      | Log_suspend_abort_reason formatted \<Rightarrow>
          Inr (log_suspend_abort_reason MAX_SUSPEND_ABORT_LEN formatted s)
      | Get_wakeup_reasons timeout \<Rightarrow>
          (case get_wakeup_reasons wait_for_completion_timeout timeout s of
             Inl f \<Rightarrow> Inl f | Inr (wakeups, unfinished, s') \<Rightarrow> Inr s')
      | Clear_wakeup_reasons \<Rightarrow> clear_wakeup_reasons s
      | Wakeup_reason_pm_event pm_event xtime stime \<Rightarrow>
          Inr (wakeup_reason_pm_event pm_event (xtime, stime) s))"

fun run ::
  "(int \<Rightarrow> string option) \<Rightarrow> nat
     \<Rightarrow> ('w::len word \<Rightarrow> 'w wakeup_state \<Rightarrow> 'w word \<times> 'w wakeup_state)
     \<Rightarrow> 'w word call list \<Rightarrow> 'w wakeup_state \<Rightarrow> fault + 'w wakeup_state" where
  "run irq_name m wait [] s = Inr s"
| "run irq_name m wait (c # cs) s =
     (case exec irq_name m wait c s of
        Inl f \<Rightarrow> Inl f
      | Inr s' \<Rightarrow> run irq_name m wait cs s')"

text \<open>
  The calls that belong to the cycle under way: all but the start of a new one
  (\<open>PM_SUSPEND_PREPARE\<close>, \<open>clear_wakeup_reasons\<close>).
\<close>

definition same_cycle :: "'u call \<Rightarrow> bool" where
  "same_cycle c =
     (case c of
        Clear_wakeup_reasons \<Rightarrow> False
      | Wakeup_reason_pm_event pm_event xtime stime \<Rightarrow> pm_event \<noteq> PM_SUSPEND_PREPARE
      | _ \<Rightarrow> True)"

text \<open>
  What runs while \<open>get_wakeup_reasons\<close> waits does not start a new cycle either: an
  abort on record stays on record.
\<close>

definition wait_keeps_abort ::
  "('w::len word \<Rightarrow> 'w wakeup_state \<Rightarrow> 'w word \<times> 'w wakeup_state) \<Rightarrow> bool" where
  "wait_keeps_abort wait \<longleftrightarrow>
     (\<forall>t s. suspend_abort s \<longrightarrow>
        suspend_abort (snd (wait t s)) \<and> abort_reason (snd (wait t s)) = abort_reason s)"

text \<open>\<open>irq_list\<close> has its 32 entries and \<open>irqcount\<close> indexes it or stands at its end.\<close>

definition irq_list_ok :: "'w::len wakeup_state \<Rightarrow> bool" where
  "irq_list_ok s =
     (length (irq_list s) = 32 \<and> 0 \<le> irqcount s \<and> irqcount s \<le> MAX_WAKEUP_REASON_IRQS)"

text \<open>The aggregate counters.\<close>

definition counters :: "'w::len wakeup_state \<Rightarrow> 'w word \<times> 'w word \<times> 'w word \<times> 'w word \<times> 'w word" where
  "counters s =
     (suspend_count s, abort_count s, wakeup_ready_timeout s, wakeup_ready_wait s,
      wakeup_ready_nowait s)"

section \<open>Recording nested interrupts\<close>

text \<open>
  Modelled from the spec: \<open>begin_node\<close> and \<open>end_node\<close> (section 4.1 of the spec; the
  interrupt dispatch calls them around the handling of each interrupt) are not among
  the sources. What follows is section 4.1, on the forest held as the list of its nodes:
  a handle is the \<open>ident\<close> of a node, the number of nodes created before it.
\<close>

datatype node_error = CapacityExceeded

text \<open>The node \<open>c\<close> gets the new child \<open>k\<close>; the node \<open>h\<close> is marked handled.\<close>

definition add_child :: "nat \<Rightarrow> nat \<Rightarrow> wakeup_irq_node list \<Rightarrow> wakeup_irq_node list" where
  "add_child c k nodes =
     map (\<lambda>m. if ident m = c then m\<lparr>child := child m @ [k]\<rparr> else m) nodes"

definition mark_handled :: "nat \<Rightarrow> wakeup_irq_node list \<Rightarrow> wakeup_irq_node list" where
  "mark_handled h nodes = map (\<lambda>m. if ident m = h then m\<lparr>handled := True\<rparr> else m) nodes"

text \<open>
  Modelled from the spec: \<open>begin_node(irq)\<close>. Beyond the depth cap (a parameter) it fails
  with \<open>CapacityExceeded\<close> and the event is dropped. Otherwise the new node becomes a
  child of the cursor when there is one, and a new root when there is none; the cursor
  moves to the new node and the depth grows by one. The first \<open>begin_node\<close> arms logging
  (section 4.3).
\<close>

definition begin_node ::
  "nat \<Rightarrow> int \<Rightarrow> 'w::len wakeup_state \<Rightarrow> node_error + (nat \<times> 'w wakeup_state)" where
  "begin_node cap i s =
     (if cap \<le> cur_irq_tree_depth s then Inl CapacityExceeded
      else
        let k = length (base_irq_nodes s);
            n = \<lparr>ident = k, irq = i, handled = False, parent = cur_irq_tree s, child = []\<rparr>;
            nodes = (case cur_irq_tree s of
                       None \<Rightarrow> base_irq_nodes s
                     | Some c \<Rightarrow> add_child c k (base_irq_nodes s))
        in Inr (k, s\<lparr>base_irq_nodes := nodes @ [n], cur_irq_tree := Some k,
                     cur_irq_tree_depth := cur_irq_tree_depth s + 1,
                     log_wakeups := True\<rparr>))"

text \<open>
  Modelled from the spec: \<open>end_node(handle)\<close>. On an unknown or already handled handle
  it does nothing. Otherwise it marks the node handled; if the node is the cursor, the
  cursor retreats to its parent. The \<open>end_node\<close> that leaves no node outstanding is the
  one that signals completion (section 4.2). Section 4.2 has logging deactivated on
  quiescence; \<open>get_wakeup_reasons\<close> does not clear the flag on that path and
  \<open>get_wakeup_reasons_nosync\<close> asserts it clear, so the flag is cleared here.
\<close>

definition end_node :: "nat \<Rightarrow> 'w::len wakeup_state \<Rightarrow> 'w wakeup_state" where
  "end_node h s =
     (case find (\<lambda>n. ident n = h) (base_irq_nodes s) of
        None \<Rightarrow> s
      | Some n \<Rightarrow>
          if handled n then s
          else
            let nodes = mark_handled h (base_irq_nodes s);
                s1 = s\<lparr>base_irq_nodes := nodes\<rparr>;
                s2 = (if cur_irq_tree s = Some h
                      then s1\<lparr>cur_irq_tree := parent n,
                              cur_irq_tree_depth := cur_irq_tree_depth s - 1\<rparr>
                      else s1)
            in if list_all handled nodes then stop_logging_wakeup_reasons s2 else s2)"

text \<open>Sequences of calls from the interrupt dispatch; a dropped event changes nothing.\<close>

datatype tree_call = Begin_node int | End_node nat

fun run_tree :: "nat \<Rightarrow> tree_call list \<Rightarrow> 'w::len wakeup_state \<Rightarrow> 'w wakeup_state" where
  "run_tree cap [] s = s"
| "run_tree cap (Begin_node i # cs) s =
     (case begin_node cap i s of
        Inl e \<Rightarrow> run_tree cap cs s
      | Inr (h, s') \<Rightarrow> run_tree cap cs s')"
| "run_tree cap (End_node h # cs) s = run_tree cap cs (end_node h s)"

text \<open>
  A sequence is properly nested when every \<open>End_node\<close> names the node opened last and
  not yet ended, no \<open>Begin_node\<close> goes beyond the cap, and every node opened is ended.
  \<open>st\<close> is the stack of open handles and \<open>k\<close> the handle the next \<open>Begin_node\<close> gets.
\<close>

fun nested :: "nat \<Rightarrow> nat list \<Rightarrow> nat \<Rightarrow> tree_call list \<Rightarrow> bool" where
  "nested cap st k [] = (st = [])"
| "nested cap st k (Begin_node i # cs) = (length st < cap \<and> nested cap (k # st) (Suc k) cs)"
| "nested cap st k (End_node h # cs) =
     (case st of [] \<Rightarrow> False | c # st' \<Rightarrow> h = c \<and> nested cap st' k cs)"

text \<open>The interrupts begun, in the order of the calls.\<close>

fun begun :: "tree_call list \<Rightarrow> int list" where
  "begun [] = []"
| "begun (Begin_node i # cs) = i # begun cs"
| "begun (End_node h # cs) = begun cs"

text \<open>
  What holds of the forest along a properly nested sequence: the idents count the nodes
  in the order of creation, the children of a node are the nodes that name it as their
  parent, and a parent is older than its children.
\<close>

definition forest_ok :: "wakeup_irq_node list \<Rightarrow> bool" where
  "forest_ok ns \<longleftrightarrow>
     map ident ns = [0..<length ns]
   \<and> (\<forall>i<length ns. child (ns ! i) = filter (\<lambda>j. parent (ns ! j) = Some i) [0..<length ns])
   \<and> (\<forall>i<length ns. \<forall>p. parent (ns ! i) = Some p \<longrightarrow> p < i)"

text \<open>The open nodes: each is nested in the next one of the stack, the last is a root.\<close>

fun chain :: "wakeup_irq_node list \<Rightarrow> nat list \<Rightarrow> bool" where
  "chain ns [] = True"
| "chain ns (c # st) =
     (c < length ns \<and> parent (ns ! c) = (case st of [] \<Rightarrow> None | p # _ \<Rightarrow> Some p)
      \<and> chain ns st)"

definition open_ok :: "nat list \<Rightarrow> wakeup_irq_node list \<Rightarrow> bool" where
  "open_ok st ns \<longleftrightarrow>
     distinct st \<and> (\<forall>i. i \<in> set st \<longleftrightarrow> i < length ns \<and> \<not> handled (ns ! i)) \<and> chain ns st"

definition tree_inv :: "nat list \<Rightarrow> 'w::len wakeup_state \<Rightarrow> bool" where
  "tree_inv st s \<longleftrightarrow>
     forest_ok (base_irq_nodes s) \<and> open_ok st (base_irq_nodes s)
   \<and> cur_irq_tree s = (case st of [] \<Rightarrow> None | c # _ \<Rightarrow> Some c)
   \<and> cur_irq_tree_depth s = length st
   \<and> log_wakeups s = (st \<noteq> [])"

section \<open>A forest for the examples\<close>

text \<open>
  Interrupt 17 with interrupt 5 nested in it: the forest of the scenario in section 8 of
  the spec. The argument is the \<open>handled\<close> flag.
\<close>

definition node17 :: "bool \<Rightarrow> wakeup_irq_node" where
  "node17 h = \<lparr>ident = 0, irq = 17, handled = h, parent = None, child = [1]\<rparr>"

definition node5 :: "bool \<Rightarrow> wakeup_irq_node" where
  "node5 h = \<lparr>ident = 1, irq = 5, handled = h, parent = Some 0, child = []\<rparr>"

section \<open>Properties of the flat list\<close>

lemma vsnprintf_length:
  "0 < sz \<Longrightarrow> length (vsnprintf buf sz formatted) < sz"
  by (simp add: vsnprintf_def)

text \<open>
  C5. When \<open>irqcount\<close> has reached \<open>MAX_WAKEUP_REASON_IRQS\<close>, \<open>log_wakeup_reason\<close>
  returns normally, having printed the warning "Resume caused by more than 32 IRQs"
  (the capacity diagnostic) after the usual line, and it drops the interrupt: the state,
  and with it the recorded interrupts and their count, is the one it was given.
\<close>

theorem log_wakeup_reason_at_cap:
  "irqcount s = MAX_WAKEUP_REASON_IRQS \<Longrightarrow>
     log_wakeup_reason irq_name i s =
       Inr ([Resume_caused_by_IRQ i (irq_name i), Resume_caused_by_more_than 32], s)"
  by (simp add: log_wakeup_reason_def MAX_WAKEUP_REASON_IRQS_def)

theorem log_wakeup_reason_at_cap_witness:
  "irqcount ((init_state :: 32 wakeup_state)\<lparr>irq_list := replicate 32 7, irqcount := 32\<rparr>)
     = MAX_WAKEUP_REASON_IRQS \<and>
   log_wakeup_reason (\<lambda>_. None) 9
       ((init_state :: 32 wakeup_state)\<lparr>irq_list := replicate 32 7, irqcount := 32\<rparr>) =
     Inr ([Resume_caused_by_IRQ 9 None, Resume_caused_by_more_than 32],
          (init_state :: 32 wakeup_state)\<lparr>irq_list := replicate 32 7, irqcount := 32\<rparr>)"
  using log_wakeup_reason_at_cap
    [of "(init_state :: 32 wakeup_state)\<lparr>irq_list := replicate 32 7, irqcount := 32\<rparr>"
        "\<lambda>_. None" 9]
  by (simp add: MAX_WAKEUP_REASON_IRQS_def)


subsection \<open>The abort reason\<close>

lemma fold_abort_noop:
  "suspend_abort s \<Longrightarrow> fold (log_suspend_abort_reason m) rs s = s"
  by (induction rs) (simp_all add: log_suspend_abort_reason_def)

text \<open>
  C7. \<open>log_suspend_abort_reason\<close> takes effect once. Called with the abort flag clear
  (and a buffer of \<open>m > 0\<close> bytes) it sets the flag and stores the first \<open>m - 1\<close>
  characters of the reason, changing nothing else; called with the flag set it returns
  the state it was given; hence after a first call any further calls \<open>rs\<close> leave the
  state, and the stored reason, as the first call left them.
\<close>

theorem log_suspend_abort_reason_once:
  "(\<not> suspend_abort s \<longrightarrow> 0 < m \<longrightarrow>
      log_suspend_abort_reason m r s = s\<lparr>suspend_abort := True, abort_reason := take (m - 1) r\<rparr>)
   \<and> (suspend_abort s \<longrightarrow> log_suspend_abort_reason m r s = s)
   \<and> fold (log_suspend_abort_reason m) rs (log_suspend_abort_reason m r s)
       = log_suspend_abort_reason m r s"
proof -
  have "suspend_abort (log_suspend_abort_reason m r s)"
    by (simp add: log_suspend_abort_reason_def)
  then have "fold (log_suspend_abort_reason m) rs (log_suspend_abort_reason m r s)
       = log_suspend_abort_reason m r s"
    by (rule fold_abort_noop)
  then show ?thesis
    by (simp add: log_suspend_abort_reason_def vsnprintf_def)
qed

theorem log_suspend_abort_reason_once_witness:
  "log_suspend_abort_reason 4 ''late''
      (log_suspend_abort_reason 4 ''wakeup'' (init_state :: 32 wakeup_state))
     = (init_state :: 32 wakeup_state)\<lparr>suspend_abort := True, abort_reason := ''wak''\<rparr>"
  using log_suspend_abort_reason_once
    [of "init_state :: 32 wakeup_state" 4 "''wakeup''" "[''late'']"]
  by (simp add: init_state_def log_suspend_abort_reason_def vsnprintf_def)

subsection \<open>The report of the last resume reason\<close>

lemma log_wakeup_reason_ok:
  assumes "irq_list_ok s"
  shows "\<exists>lines s'. log_wakeup_reason irq_name i s = Inr (lines, s')
           \<and> irq_list_ok s' \<and> suspend_abort s' = suspend_abort s
           \<and> abort_reason s' = abort_reason s \<and> counters s' = counters s"
  using assms
  by (auto simp add: log_wakeup_reason_def irq_list_ok_def MAX_WAKEUP_REASON_IRQS_def
      counters_def)

lemma get_wakeup_reasons_keeps_abort:
  assumes w: "wait_keeps_abort wait" and a: "suspend_abort s"
    and g: "get_wakeup_reasons wait timeout s = Inr (wakeups, unfinished, s')"
  shows "suspend_abort s' \<and> abort_reason s' = abort_reason s"
proof (cases "log_wakeups s")
  case False
  with g a show ?thesis
    by (auto simp add: get_wakeup_reasons_def logging_wakeup_reasons_def
        get_wakeup_reasons_nosync_def split: if_splits)
next
  case True
  obtain signalled s1
    where ws: "(if timeout \<noteq> 0 then wait timeout s else (0, s)) = (signalled, s1)"
    by (cases "if timeout \<noteq> 0 then wait timeout s else (0, s)")
  have k: "suspend_abort s1 \<and> abort_reason s1 = abort_reason s"
    using ws w a unfolding wait_keeps_abort_def
    by (cases "timeout = 0") (auto dest: spec [of _ timeout] simp add: snd_def split: prod.splits)
  show ?thesis
  proof (cases "signalled = 0")
    case True
    with g ws \<open>log_wakeups s\<close> k show ?thesis
      by (auto simp add: get_wakeup_reasons_def logging_wakeup_reasons_def
          stop_logging_wakeup_reasons_def)
  next
    case False
    with g ws \<open>log_wakeups s\<close> k show ?thesis
      by (auto simp add: get_wakeup_reasons_def logging_wakeup_reasons_def
          get_wakeup_reasons_nosync_def Let_def split: if_splits)
  qed
qed

lemma exec_same_cycle:
  assumes "same_cycle c" and w: "wait_keeps_abort wait" and a: "suspend_abort s"
    and e: "exec irq_name m wait c s = Inr s'"
  shows "suspend_abort s' \<and> abort_reason s' = abort_reason s"
proof (cases c)
  case (Log_wakeup_reason i)
  with e a show ?thesis
    by (auto simp add: exec_def log_wakeup_reason_def split: if_splits)
next
  case (Log_suspend_abort_reason formatted)
  with e a show ?thesis
    by (auto simp add: exec_def log_suspend_abort_reason_def)
next
  case (Get_wakeup_reasons timeout)
  with e obtain wakeups unfinished
    where "get_wakeup_reasons wait timeout s = Inr (wakeups, unfinished, s')"
    by (auto simp add: exec_def split: sum.splits)
  from get_wakeup_reasons_keeps_abort [OF w a this] show ?thesis .
next
  case Clear_wakeup_reasons
  with assms(1) show ?thesis by (simp add: same_cycle_def)
next
  case (Wakeup_reason_pm_event pm_event xtime stime)
  with assms(1) e a show ?thesis
    by (cases pm_event) (auto simp add: same_cycle_def exec_def wakeup_reason_pm_event_def)
qed

lemma run_same_cycle:
  "list_all same_cycle cs \<Longrightarrow> wait_keeps_abort wait \<Longrightarrow> suspend_abort s \<Longrightarrow>
     run irq_name m wait cs s = Inr s' \<Longrightarrow>
     suspend_abort s' \<and> abort_reason s' = abort_reason s"
proof (induction cs arbitrary: s)
  case Nil
  then show ?case by simp
next
  case (Cons c cs)
  from Cons.prems(4) obtain s1 where s1: "exec irq_name m wait c s = Inr s1"
    and r: "run irq_name m wait cs s1 = Inr s'"
    by (auto split: sum.splits)
  from Cons.prems(1) have c: "same_cycle c" and cs: "list_all same_cycle cs"
    by simp_all
  from exec_same_cycle [OF c Cons.prems(2,3) s1]
  have k: "suspend_abort s1" "abort_reason s1 = abort_reason s"
    by simp_all
  from Cons.IH [OF cs Cons.prems(2) k(1) r] k(2) show ?case
    by simp
qed

text \<open>
  C4. Let \<open>log_suspend_abort_reason\<close> be called with reason \<open>x\<close> while no abort reason is
  on record (the abort flag is clear, so that the reason is the first of its cycle, the
  one that takes effect), and let any calls \<open>cs\<close> of the same cycle follow and return:
  interrupts logged, further abort reasons, waits for the interrupt handlers, the
  post-suspend event, anything but the start of a new cycle; what runs during a wait is
  taken to keep an abort on record. Then
  \<open>last_resume_reason_show\<close> gives \<open>Abort:\<close> followed by \<open>x\<close> as it was stored, that is
  its first \<open>MAX_SUSPEND_ABORT_LEN - 1\<close> characters; a reason that fits the buffer is
  reported whole. The number of interrupts logged before or after the abort plays no
  part.
\<close>

theorem abort_reason_reported:
  assumes "\<not> suspend_abort s" and "0 < m" and "list_all same_cycle cs"
    and "wait_keeps_abort wait"
    and "run irq_name m wait cs (log_suspend_abort_reason m x s) = Inr s'"
  shows "last_resume_reason_show irq_name s' = ''Abort: '' @ take (m - 1) x
       \<and> (length x < m \<longrightarrow> last_resume_reason_show irq_name s' = ''Abort: '' @ x)"
proof -
  let ?s0 = "log_suspend_abort_reason m x s"
  have a: "suspend_abort ?s0" and r: "abort_reason ?s0 = take (m - 1) x"
    using assms(1,2) by (simp_all add: log_suspend_abort_reason_def vsnprintf_def)
  from run_same_cycle [OF assms(3,4) a assms(5)] r
  have "last_resume_reason_show irq_name s' = ''Abort: '' @ take (m - 1) x"
    by (simp add: last_resume_reason_show_def)
  then show ?thesis by simp
qed

theorem abort_reason_reported_witness:
  "run (\<lambda>i. None) 256 (\<lambda>t s. (0, s))
      [Log_wakeup_reason 17, Log_suspend_abort_reason ''late'', Get_wakeup_reasons 10,
       Wakeup_reason_pm_event PM_POST_SUSPEND zero_time zero_time, Log_wakeup_reason 5]
      (log_suspend_abort_reason 256 ''alarm'' (init_state :: 32 wakeup_state))
     = Inr ((init_state :: 32 wakeup_state)
              \<lparr>irq_list := (replicate 32 0)[0 := 17, 1 := 5], irqcount := 2,
               suspend_abort := True, abort_reason := ''alarm'',
               wakeup_ready_nowait := 1\<rparr>)
   \<and> last_resume_reason_show (\<lambda>i. None)
        ((init_state :: 32 wakeup_state)
              \<lparr>irq_list := (replicate 32 0)[0 := 17, 1 := 5], irqcount := 2,
               suspend_abort := True, abort_reason := ''alarm'',
               wakeup_ready_nowait := 1\<rparr>) = ''Abort: alarm''"
  using abort_reason_reported
    [of "init_state :: 32 wakeup_state" 256
        "[Log_wakeup_reason 17, Log_suspend_abort_reason ''late'', Get_wakeup_reasons 10,
          Wakeup_reason_pm_event PM_POST_SUSPEND zero_time zero_time, Log_wakeup_reason 5]"
        "\<lambda>t s. (0, s)" "\<lambda>i. None" "''alarm''"
        "(init_state :: 32 wakeup_state)
              \<lparr>irq_list := (replicate 32 0)[0 := 17, 1 := 5], irqcount := 2,
               suspend_abort := True, abort_reason := ''alarm'',
               wakeup_ready_nowait := 1\<rparr>"]
  by (simp add: init_state_def same_cycle_def wait_keeps_abort_def MAX_WAKEUP_REASON_IRQS_def
      exec_def log_wakeup_reason_def log_suspend_abort_reason_def vsnprintf_def
      get_wakeup_reasons_def get_wakeup_reasons_nosync_def logging_wakeup_reasons_def
      walk_irq_node_tree_def wakeup_reason_pm_event_def last_resume_reason_show_def)

section \<open>Properties of the suspend times\<close>

lemma dec_lt10: "n < 10 \<Longrightarrow> dec n = [digit n]"
  by (simp add: dec.simps)

lemma dec_ge10: "10 \<le> n \<Longrightarrow> dec n = dec (n div 10) @ [digit (n mod 10)]"
  by (subst dec.simps) simp

lemma replicate_numeral: "replicate (numeral k) x = x # replicate (pred_numeral k) x"
  by (simp add: numeral_eq_Suc)

lemmas show_simps = replicate_numeral dec_lt10 dec_ge10 digit_def dec09_def fmt_lu_def
  fmt_09lu_def newline_def last_suspend_time_show_def sleep_time_def total_time_def
  suspend_resume_time_def timespec_sub_def set_normalized_timespec_def NSEC_PER_SEC_def
  wakeup_reason_pm_event_def init_state_def zero_time_def

lemma timespec_sub_self: "timespec_sub t t = zero_time"
  by (simp add: timespec_sub_def set_normalized_timespec_def zero_time_def)

lemma timespec_sub_by_ns:
  "timespec_sub a b =
     \<lparr>tv_sec = (ts_ns a - ts_ns b) div NSEC_PER_SEC, tv_nsec = (ts_ns a - ts_ns b) mod NSEC_PER_SEC\<rparr>"
proof -
  define d where "d = tv_nsec a - tv_nsec b"
  define e where "e = tv_sec a - tv_sec b"
  have ns: "ts_ns a - ts_ns b = d + e * NSEC_PER_SEC"
    by (simp add: ts_ns_def d_def e_def algebra_simps)
  have "(d + e * NSEC_PER_SEC) div NSEC_PER_SEC = e + d div NSEC_PER_SEC"
    and "(d + e * NSEC_PER_SEC) mod NSEC_PER_SEC = d mod NSEC_PER_SEC"
    by (simp_all add: NSEC_PER_SEC_def)
  then show ?thesis
    unfolding ns by (simp add: timespec_sub_def set_normalized_timespec_def d_def e_def)
qed

text \<open>
  C8. Prepare-suspend followed by post-suspend with nothing but sleep in between: from
  the sample \<open>now\<close> read at prepare-suspend to the sample \<open>now'\<close> read at post-suspend,
  the wall clock and the sleep accumulator have advanced by the same amount (by nothing
  at all when both events read the same clock value). Whatever the state before, the
  sleep time and the total time are then the differences of the two samples, they are
  equal, the time spent suspending and resuming is zero, and no interrupt is on record.
\<close>

theorem prepare_then_post_round_trip:
  assumes "ts_ns (fst now') - ts_ns (fst now) = ts_ns (snd now') - ts_ns (snd now)"
  shows "sleep_time (wakeup_reason_pm_event PM_POST_SUSPEND now'
                      (wakeup_reason_pm_event PM_SUSPEND_PREPARE now s))
           = timespec_sub (snd now') (snd now)
       \<and> total_time (wakeup_reason_pm_event PM_POST_SUSPEND now'
                      (wakeup_reason_pm_event PM_SUSPEND_PREPARE now s))
           = timespec_sub (fst now') (fst now)
       \<and> sleep_time (wakeup_reason_pm_event PM_POST_SUSPEND now'
                      (wakeup_reason_pm_event PM_SUSPEND_PREPARE now s))
           = total_time (wakeup_reason_pm_event PM_POST_SUSPEND now'
                      (wakeup_reason_pm_event PM_SUSPEND_PREPARE now s))
       \<and> suspend_resume_time (wakeup_reason_pm_event PM_POST_SUSPEND now'
                      (wakeup_reason_pm_event PM_SUSPEND_PREPARE now s))
           = zero_time
       \<and> irqcount (wakeup_reason_pm_event PM_POST_SUSPEND now'
                      (wakeup_reason_pm_event PM_SUSPEND_PREPARE now s)) = 0"
proof -
  have "timespec_sub (snd now') (snd now) = timespec_sub (fst now') (fst now)"
    using assms by (simp add: timespec_sub_by_ns)
  then show ?thesis
    by (simp add: sleep_time_def total_time_def suspend_resume_time_def
        wakeup_reason_pm_event_def timespec_sub_self)
qed

theorem prepare_then_post_round_trip_witness:
  "sleep_time
      (wakeup_reason_pm_event PM_POST_SUSPEND
         (\<lparr>tv_sec = 1700000042, tv_nsec = 100000000\<rparr>, \<lparr>tv_sec = 3641, tv_nsec = 400000000\<rparr>)
         (wakeup_reason_pm_event PM_SUSPEND_PREPARE
            (\<lparr>tv_sec = 1700000000, tv_nsec = 900000000\<rparr>, \<lparr>tv_sec = 3600, tv_nsec = 200000000\<rparr>)
            (init_state :: 32 wakeup_state))) = \<lparr>tv_sec = 41, tv_nsec = 200000000\<rparr>
   \<and> total_time
      (wakeup_reason_pm_event PM_POST_SUSPEND
         (\<lparr>tv_sec = 1700000042, tv_nsec = 100000000\<rparr>, \<lparr>tv_sec = 3641, tv_nsec = 400000000\<rparr>)
         (wakeup_reason_pm_event PM_SUSPEND_PREPARE
            (\<lparr>tv_sec = 1700000000, tv_nsec = 900000000\<rparr>, \<lparr>tv_sec = 3600, tv_nsec = 200000000\<rparr>)
            (init_state :: 32 wakeup_state))) = \<lparr>tv_sec = 41, tv_nsec = 200000000\<rparr>
   \<and> last_suspend_time_show
      (wakeup_reason_pm_event PM_POST_SUSPEND
         (\<lparr>tv_sec = 1700000042, tv_nsec = 100000000\<rparr>, \<lparr>tv_sec = 3641, tv_nsec = 400000000\<rparr>)
         (wakeup_reason_pm_event PM_SUSPEND_PREPARE
            (\<lparr>tv_sec = 1700000000, tv_nsec = 900000000\<rparr>, \<lparr>tv_sec = 3600, tv_nsec = 200000000\<rparr>)
            (init_state :: 32 wakeup_state)))
     = ''0.000000000 41.200000000'' @ [newline]"
  using prepare_then_post_round_trip
    [of "(\<lparr>tv_sec = 1700000042, tv_nsec = 100000000\<rparr>, \<lparr>tv_sec = 3641, tv_nsec = 400000000\<rparr>)"
        "(\<lparr>tv_sec = 1700000000, tv_nsec = 900000000\<rparr>, \<lparr>tv_sec = 3600, tv_nsec = 200000000\<rparr>)"
        "init_state :: 32 wakeup_state"]
  by (simp add: show_simps ts_ns_def)

lemma ts_ns_sub: "ts_ns (timespec_sub a b) = ts_ns a - ts_ns b"
  by (simp add: ts_ns_def timespec_sub_def set_normalized_timespec_def algebra_simps)

lemma nsec_sub_range:
  "0 \<le> tv_nsec (timespec_sub a b) \<and> tv_nsec (timespec_sub a b) < NSEC_PER_SEC"
  by (simp add: timespec_sub_def set_normalized_timespec_def NSEC_PER_SEC_def)

lemma sec_nonneg:
  assumes "0 \<le> ts_ns a - ts_ns b"
  shows "0 \<le> tv_sec (timespec_sub a b)"
proof -
  let ?d = "timespec_sub a b"
  have "0 \<le> tv_sec ?d * NSEC_PER_SEC + tv_nsec ?d"
    using assms ts_ns_sub [of a b] by (simp add: ts_ns_def)
  moreover have "tv_nsec ?d < NSEC_PER_SEC"
    using nsec_sub_range [of a b] by simp
  ultimately have "- 1 < tv_sec ?d"
    by (simp add: NSEC_PER_SEC_def)
  then show ?thesis by simp
qed

text \<open>
  C9, as the code has it. \<open>last_suspend_time_show\<close> computes the three durations and
  prints two of them; it has no check and no error to report. The durations are
  non-negative under these conditions on the four timestamps: neither the sleep
  accumulator nor the wall clock went backwards between the prepare-suspend and the
  post-suspend samples, and the sleep accumulator advanced by no more than the wall
  clock. The nanoseconds are never negative.
\<close>

theorem durations_nonneg:
  assumes "ts_ns (last_stime s) \<le> ts_ns (curr_stime s)"
    and "ts_ns (last_xtime s) \<le> ts_ns (curr_xtime s)"
    and "ts_ns (curr_stime s) - ts_ns (last_stime s)
           \<le> ts_ns (curr_xtime s) - ts_ns (last_xtime s)"
  shows "0 \<le> tv_sec (sleep_time s) \<and> 0 \<le> tv_nsec (sleep_time s)
       \<and> 0 \<le> tv_sec (total_time s) \<and> 0 \<le> tv_nsec (total_time s)
       \<and> 0 \<le> tv_sec (suspend_resume_time s) \<and> 0 \<le> tv_nsec (suspend_resume_time s)"
proof -
  have "0 \<le> tv_sec (sleep_time s)"
    unfolding sleep_time_def using assms(1) by (intro sec_nonneg) simp
  moreover have "0 \<le> tv_sec (total_time s)"
    unfolding total_time_def using assms(2) by (intro sec_nonneg) simp
  moreover have "0 \<le> tv_sec (suspend_resume_time s)"
    unfolding suspend_resume_time_def
    using assms(3) by (intro sec_nonneg) (simp add: ts_ns_sub sleep_time_def total_time_def)
  ultimately show ?thesis
    using nsec_sub_range by (simp add: sleep_time_def total_time_def suspend_resume_time_def)
qed

theorem durations_nonneg_witness:
  "suspend_resume_time
      ((init_state :: 32 wakeup_state)
         \<lparr>last_xtime := \<lparr>tv_sec = 100, tv_nsec = 900000000\<rparr>,
          curr_xtime := \<lparr>tv_sec = 105, tv_nsec = 100000000\<rparr>,
          last_stime := \<lparr>tv_sec = 10, tv_nsec = 0\<rparr>,
          curr_stime := \<lparr>tv_sec = 13, tv_nsec = 500000000\<rparr>\<rparr>)
     = \<lparr>tv_sec = 0, tv_nsec = 700000000\<rparr>
   \<and> 0 \<le> tv_sec (suspend_resume_time
      ((init_state :: 32 wakeup_state)
         \<lparr>last_xtime := \<lparr>tv_sec = 100, tv_nsec = 900000000\<rparr>,
          curr_xtime := \<lparr>tv_sec = 105, tv_nsec = 100000000\<rparr>,
          last_stime := \<lparr>tv_sec = 10, tv_nsec = 0\<rparr>,
          curr_stime := \<lparr>tv_sec = 13, tv_nsec = 500000000\<rparr>\<rparr>))
   \<and> last_suspend_time_show
      ((init_state :: 32 wakeup_state)
         \<lparr>last_xtime := \<lparr>tv_sec = 100, tv_nsec = 900000000\<rparr>,
          curr_xtime := \<lparr>tv_sec = 105, tv_nsec = 100000000\<rparr>,
          last_stime := \<lparr>tv_sec = 10, tv_nsec = 0\<rparr>,
          curr_stime := \<lparr>tv_sec = 13, tv_nsec = 500000000\<rparr>\<rparr>)
     = ''0.700000000 3.500000000'' @ [newline]"
  using durations_nonneg
    [of "(init_state :: 32 wakeup_state)
         \<lparr>last_xtime := \<lparr>tv_sec = 100, tv_nsec = 900000000\<rparr>,
          curr_xtime := \<lparr>tv_sec = 105, tv_nsec = 100000000\<rparr>,
          last_stime := \<lparr>tv_sec = 10, tv_nsec = 0\<rparr>,
          curr_stime := \<lparr>tv_sec = 13, tv_nsec = 500000000\<rparr>\<rparr>"]
  by (simp add: show_simps ts_ns_def)

text \<open>
  A negative duration is printed, not reported. After the first prepare-suspend of a
  boot, at wall time 100 s, and before any post-suspend, the total time is -100 s; on a
  32-bit target the endpoint prints it as 4294967196 seconds.
\<close>

theorem negative_duration_counterexample:
  "tv_sec (total_time (wakeup_reason_pm_event PM_SUSPEND_PREPARE
        (\<lparr>tv_sec = 100, tv_nsec = 0\<rparr>, zero_time) (init_state :: 32 wakeup_state))) = - 100
   \<and> last_suspend_time_show (wakeup_reason_pm_event PM_SUSPEND_PREPARE
        (\<lparr>tv_sec = 100, tv_nsec = 0\<rparr>, zero_time) (init_state :: 32 wakeup_state))
      = ''4294967196.000000000 0.000000000'' @ [newline]"
  by (simp add: show_simps)


section \<open>Properties of the wait for the interrupt handlers\<close>

lemma walk_build_leaf_nodes:
  "walk_nodes ns build_leaf_nodes acc = (True, rev (filter (\<lambda>n. child n = []) ns) @ acc)"
  by (induction ns arbitrary: acc) (simp_all add: build_leaf_nodes_def)

lemma walk_build_unfinished_nodes:
  "walk_nodes ns build_unfinished_nodes acc = (True, rev (filter (\<lambda>n. \<not> handled n) ns) @ acc)"
  by (induction ns arbitrary: acc) (simp_all add: build_unfinished_nodes_def)

lemma walk_tree_leaf:
  "walk_irq_node_tree root build_leaf_nodes [] = (True, filter (\<lambda>n. child n = []) root)"
  by (simp add: walk_irq_node_tree_def walk_build_leaf_nodes rev_filter)

lemma walk_tree_unfinished:
  "walk_irq_node_tree root build_unfinished_nodes [] = (True, filter (\<lambda>n. \<not> handled n) root)"
  by (simp add: walk_irq_node_tree_def walk_build_unfinished_nodes rev_filter)

lemma nosync_leaves:
  "\<not> log_wakeups s \<Longrightarrow>
     get_wakeup_reasons_nosync s =
       Inr (filter (\<lambda>n. child n = []) (base_irq_nodes s),
            s\<lparr>wakeup_irqs := filter (\<lambda>n. child n = []) (base_irq_nodes s)\<rparr>)"
  by (simp add: get_wakeup_reasons_nosync_def logging_wakeup_reasons_def walk_tree_leaf)

text \<open>
  C3. When logging is not active, \<open>get_wakeup_reasons\<close> does not wait: whatever the
  timeout and whatever \<open>wait_for_completion_timeout\<close> would do, it returns the nodes
  without children, in the order they were created, leaves \<open>unfinished\<close> empty and adds
  one to \<open>wakeup_ready_nowait\<close> (in \<open>unsigned long\<close> arithmetic), changing nothing else
  but the list \<open>wakeup_irqs\<close> it returns. In particular, in a cycle that starts from the
  cleared forest and sees the prepare-suspend and post-suspend events and no interrupt,
  the list returned is empty.
\<close>

theorem get_wakeup_reasons_no_wait:
  assumes "\<not> log_wakeups s"
  shows "get_wakeup_reasons wait timeout s =
           Inr (Some (filter (\<lambda>n. child n = []) (base_irq_nodes s)), [],
                s\<lparr>wakeup_ready_nowait := wakeup_ready_nowait s + 1,
                  wakeup_irqs := filter (\<lambda>n. child n = []) (base_irq_nodes s)\<rparr>)
       \<and> (\<forall>s1. clear_wakeup_reasons s = Inr s1 \<longrightarrow>
             get_wakeup_reasons wait timeout
               (wakeup_reason_pm_event PM_POST_SUSPEND now'
                 (wakeup_reason_pm_event PM_SUSPEND_PREPARE now s1)) =
             Inr (Some [], [],
                  (wakeup_reason_pm_event PM_POST_SUSPEND now'
                    (wakeup_reason_pm_event PM_SUSPEND_PREPARE now s1))
                  \<lparr>wakeup_ready_nowait := wakeup_ready_nowait s + 1, wakeup_irqs := []\<rparr>))"
  using assms
  by (auto simp add: get_wakeup_reasons_def logging_wakeup_reasons_def nosync_leaves
      clear_wakeup_reasons_def clear_wakeup_reasons_nolock_def wakeup_reason_pm_event_def)

theorem get_wakeup_reasons_no_wait_witness:
  "get_wakeup_reasons (\<lambda>t s. (0, s)) 10
      ((init_state :: 32 wakeup_state)\<lparr>base_irq_nodes := [node17 True, node5 True]\<rparr>)
     = Inr (Some [node5 True], [],
            (init_state :: 32 wakeup_state)
              \<lparr>base_irq_nodes := [node17 True, node5 True],
               wakeup_ready_nowait := 1, wakeup_irqs := [node5 True]\<rparr>)
   \<and> get_wakeup_reasons (\<lambda>t s. (0, s)) 10
        (wakeup_reason_pm_event PM_POST_SUSPEND (zero_time, zero_time)
          (wakeup_reason_pm_event PM_SUSPEND_PREPARE (zero_time, zero_time)
            (init_state :: 32 wakeup_state)))
     = Inr (Some [], [], (init_state :: 32 wakeup_state)\<lparr>wakeup_ready_nowait := 1\<rparr>)"
  using get_wakeup_reasons_no_wait
    [of "(init_state :: 32 wakeup_state)\<lparr>base_irq_nodes := [node17 True, node5 True]\<rparr>"
        "\<lambda>t s. (0, s)" 10]
    get_wakeup_reasons_no_wait
    [of "init_state :: 32 wakeup_state" "\<lambda>t s. (0, s)" 10 "(zero_time, zero_time)"
        "(zero_time, zero_time)"]
  by (simp add: init_state_def node17_def node5_def clear_wakeup_reasons_def
      clear_wakeup_reasons_nolock_def logging_wakeup_reasons_def wakeup_reason_pm_event_def)

text \<open>
  C2. Logging is active and the wait runs out: \<open>wait_for_completion_timeout\<close> returns 0,
  the handlers having left the state \<open>s1\<close>. Then
  \<open>get_wakeup_reasons\<close> returns \<open>NULL\<close>, \<open>unfinished\<close> holds exactly the nodes of \<open>s1\<close>
  whose \<open>handled\<close> flag is clear (each once, in the order they were created), logging is
  stopped and \<open>wakeup_ready_timeout\<close> is one more than it was (in \<open>unsigned long\<close>
  arithmetic); nothing else changes.
\<close>

theorem get_wakeup_reasons_timed_out:
  assumes "log_wakeups s" and "timeout \<noteq> 0" and "wait timeout s = (0, s1)"
  shows "get_wakeup_reasons wait timeout s =
           Inr (None, filter (\<lambda>n. \<not> handled n) (base_irq_nodes s1),
                s1\<lparr>wakeup_ready_timeout := wakeup_ready_timeout s1 + 1, log_wakeups := False\<rparr>)"
  using assms
  by (simp add: get_wakeup_reasons_def logging_wakeup_reasons_def
      stop_logging_wakeup_reasons_def walk_tree_unfinished)

theorem get_wakeup_reasons_timed_out_witness:
  "get_wakeup_reasons (\<lambda>t s. (0, s)) 10
      ((init_state :: 32 wakeup_state)
         \<lparr>base_irq_nodes := [node17 False, node5 True], log_wakeups := True\<rparr>)
     = Inr (None, [node17 False],
            (init_state :: 32 wakeup_state)
              \<lparr>base_irq_nodes := [node17 False, node5 True], wakeup_ready_timeout := 1\<rparr>)"
  using get_wakeup_reasons_timed_out
    [of "(init_state :: 32 wakeup_state)
           \<lparr>base_irq_nodes := [node17 False, node5 True], log_wakeups := True\<rparr>"
        10 "\<lambda>t s. (0, s)"
        "(init_state :: 32 wakeup_state)
           \<lparr>base_irq_nodes := [node17 False, node5 True], log_wakeups := True\<rparr>"]
  by (simp add: init_state_def node17_def node5_def)

text \<open>
  C10. With a timeout of 0 and logging active, \<open>wait_for_completion_timeout\<close> is not
  called: the result does not depend on it. The call returns \<open>NULL\<close> with the unhandled
  nodes in \<open>unfinished\<close>, stops logging and adds one to \<open>wakeup_ready_timeout\<close>, which
  is what a call with any timeout does when the wait runs out at once and the handlers
  have changed nothing.
\<close>

theorem get_wakeup_reasons_zero_timeout:
  assumes "log_wakeups s"
  shows "get_wakeup_reasons wait 0 s =
           Inr (None, filter (\<lambda>n. \<not> handled n) (base_irq_nodes s),
                s\<lparr>wakeup_ready_timeout := wakeup_ready_timeout s + 1, log_wakeups := False\<rparr>)
       \<and> get_wakeup_reasons wait 0 s = get_wakeup_reasons (\<lambda>t s'. (0, s')) timeout s"
  using assms
  by (simp add: get_wakeup_reasons_def logging_wakeup_reasons_def
      stop_logging_wakeup_reasons_def walk_tree_unfinished)

theorem get_wakeup_reasons_zero_timeout_witness:
  "get_wakeup_reasons (\<lambda>t s. (t, s\<lparr>log_wakeups := False\<rparr>)) 0
      ((init_state :: 32 wakeup_state)
         \<lparr>base_irq_nodes := [node17 False, node5 False], log_wakeups := True\<rparr>)
     = Inr (None, [node17 False, node5 False],
            (init_state :: 32 wakeup_state)
              \<lparr>base_irq_nodes := [node17 False, node5 False], wakeup_ready_timeout := 1\<rparr>)"
  using get_wakeup_reasons_zero_timeout
    [of "(init_state :: 32 wakeup_state)
           \<lparr>base_irq_nodes := [node17 False, node5 False], log_wakeups := True\<rparr>"
        "\<lambda>t s. (t, s\<lparr>log_wakeups := False\<rparr>)" 0]
  by (simp add: init_state_def node17_def node5_def)

section \<open>Properties of the aggregate counters\<close>








section \<open>Properties of the recording of nested interrupts\<close>

lemma idents_nth:
  "map ident ns = [0..<length ns] \<Longrightarrow> i < length ns \<Longrightarrow> ident (ns ! i) = i"
  by (metis add_0 length_map nth_map nth_upt)

lemma add_child_eq:
  assumes "map ident ns = [0..<length ns]" and "c < length ns"
  shows "add_child c k ns = ns[c := (ns ! c)\<lparr>child := child (ns ! c) @ [k]\<rparr>]"
  using assms
  by (intro nth_equalityI) (auto simp add: add_child_def idents_nth nth_list_update)

lemma mark_handled_eq:
  assumes "map ident ns = [0..<length ns]" and "h < length ns"
  shows "mark_handled h ns = ns[h := (ns ! h)\<lparr>handled := True\<rparr>]"
  using assms
  by (intro nth_equalityI) (auto simp add: mark_handled_def idents_nth nth_list_update)

lemma find_ident:
  assumes "map ident ns = [0..<length ns]" and "h < length ns"
  shows "find (\<lambda>n. ident n = h) ns = Some (ns ! h)"
proof -
  have "ident (ns ! h) = h"
    using assms by (rule idents_nth)
  moreover have "ident (ns ! j) \<noteq> h" if "j < h" for j
    using that assms idents_nth [of ns j] by simp
  ultimately show ?thesis
    using assms(2) unfolding find_Some_iff by (intro exI [of _ h]) simp
qed

lemma chain_mono:
  assumes "chain ns st" and "length ns \<le> length ns'"
    and "\<And>i. i < length ns \<Longrightarrow> parent (ns' ! i) = parent (ns ! i)"
  shows "chain ns' st"
  using assms(1) by (induction st) (use assms(2,3) in auto)


lemma forest_ok_snoc:
  assumes ok: "forest_ok ns" and len: "length ns1 = length ns"
    and idn: "\<And>j. j < length ns \<Longrightarrow> ident (ns1 ! j) = ident (ns ! j)"
    and par: "\<And>j. j < length ns \<Longrightarrow> parent (ns1 ! j) = parent (ns ! j)"
    and chi: "\<And>j. j < length ns \<Longrightarrow>
                child (ns1 ! j) = child (ns ! j) @ (if cur = Some j then [length ns] else [])"
    and cur: "\<And>c. cur = Some c \<Longrightarrow> c < length ns"
    and n: "ident n = length ns" "parent n = cur" "child n = []"
  shows "forest_ok (ns1 @ [n])"
proof -
  let ?k = "length ns" and ?ns' = "ns1 @ [n]"
  from ok have ids: "map ident ns = [0..<?k]"
    and ch: "\<And>i. i < ?k \<Longrightarrow> child (ns ! i) = filter (\<lambda>j. parent (ns ! j) = Some i) [0..<?k]"
    and pa: "\<And>i p. i < ?k \<Longrightarrow> parent (ns ! i) = Some p \<Longrightarrow> p < i"
    by (simp_all add: forest_ok_def)
  have "map ident ns1 = map ident ns"
    using len idn by (intro nth_equalityI) simp_all
  with ids n(1) len have A: "map ident ?ns' = [0..<length ?ns']"
    by simp
  have par': "parent (?ns' ! j) = parent (ns ! j)" if "j < ?k" for j
    using that par len by (simp add: nth_append)
  have flt: "filter (\<lambda>j. parent (?ns' ! j) = Some i) [0..<?k]
               = filter (\<lambda>j. parent (ns ! j) = Some i) [0..<?k]" for i
    by (rule filter_cong) (simp_all add: par')
  have lastp: "parent (?ns' ! ?k) = cur"
    using len n(2) by (simp add: nth_append)
  have split: "filter (\<lambda>j. parent (?ns' ! j) = Some i) [0..<Suc ?k]
                 = filter (\<lambda>j. parent (ns ! j) = Some i) [0..<?k]
                   @ (if cur = Some i then [?k] else [])" for i
  proof -
    have "filter (\<lambda>j. parent (?ns' ! j) = Some i) [0..<Suc ?k]
            = filter (\<lambda>j. parent (?ns' ! j) = Some i) [0..<?k]
              @ (if parent (?ns' ! ?k) = Some i then [?k] else [])"
      by simp
    then show ?thesis
      by (simp only: flt lastp)
  qed
  have B: "child (?ns' ! i) = filter (\<lambda>j. parent (?ns' ! j) = Some i) [0..<length ?ns']"
    if "i < length ?ns'" for i
  proof (cases "i < ?k")
    case True
    then have "child (?ns' ! i) = child (ns ! i) @ (if cur = Some i then [?k] else [])"
      using chi len by (simp add: nth_append)
    also have "\<dots> = filter (\<lambda>j. parent (ns ! j) = Some i) [0..<?k]
                      @ (if cur = Some i then [?k] else [])"
      using ch [OF True] by simp
    also have "\<dots> = filter (\<lambda>j. parent (?ns' ! j) = Some i) [0..<Suc ?k]"
      by (simp only: split)
    finally show ?thesis using len by simp
  next
    case False
    with that len have i: "i = ?k" by simp
    have "parent (ns ! j) \<noteq> Some ?k" if "j < ?k" for j
      using pa [OF that, of ?k] that by auto
    then have "filter (\<lambda>j. parent (ns ! j) = Some ?k) [0..<?k] = []"
      by (auto simp add: filter_empty_conv)
    moreover have "cur \<noteq> Some ?k"
      using cur [of ?k] by auto
    ultimately have "filter (\<lambda>j. parent (?ns' ! j) = Some ?k) [0..<Suc ?k] = []"
      by (simp only: split) simp
    moreover have "child (?ns' ! ?k) = []"
      using len n(3) by (simp add: nth_append)
    ultimately show ?thesis
      using i len by simp
  qed
  have C: "p < i" if "i < length ?ns'" and "parent (?ns' ! i) = Some p" for i p
  proof (cases "i < ?k")
    case True
    with that(2) pa [of i p] par' [of i] show ?thesis by simp
  next
    case False
    with that len n(2) cur [of p] show ?thesis by (simp add: nth_append)
  qed
  from A B C show ?thesis
    unfolding forest_ok_def by blast
qed


lemma add_child_nth:
  assumes "map ident ns = [0..<length ns]" and "c < length ns" and "j < length ns"
  shows "ident (add_child c k ns ! j) = ident (ns ! j)"
    and "parent (add_child c k ns ! j) = parent (ns ! j)"
    and "handled (add_child c k ns ! j) = handled (ns ! j)"
    and "irq (add_child c k ns ! j) = irq (ns ! j)"
    and "child (add_child c k ns ! j) = child (ns ! j) @ (if c = j then [k] else [])"
  using assms(3) unfolding add_child_eq [OF assms(1,2)]
  by (cases "c = j"; simp)+

lemma add_child_length: "length (add_child c k ns) = length ns"
  by (simp add: add_child_def)

lemma begin_node_inv:
  assumes inv: "tree_inv st s" and cap: "length st < cap"
  shows "\<exists>s'. begin_node cap i s = Inr (length (base_irq_nodes s), s')
           \<and> tree_inv (length (base_irq_nodes s) # st) s'
           \<and> map irq (base_irq_nodes s') = map irq (base_irq_nodes s) @ [i]"
proof -
  define ns where "ns = base_irq_nodes s"
  define cur where "cur = cur_irq_tree s"
  define k where "k = length ns"
  define n where "n = \<lparr>ident = k, irq = i, handled = False, parent = cur, child = []\<rparr>"
  define ns1 where "ns1 = (case cur of None \<Rightarrow> ns | Some c \<Rightarrow> add_child c k ns)"
  define s' where "s' = s\<lparr>base_irq_nodes := ns1 @ [n], cur_irq_tree := Some k,
               cur_irq_tree_depth := cur_irq_tree_depth s + 1, log_wakeups := True\<rparr>"
  from inv have ok: "forest_ok ns" and op: "open_ok st ns"
    and cur: "cur = (case st of [] \<Rightarrow> None | c # _ \<Rightarrow> Some c)"
    and depth: "cur_irq_tree_depth s = length st"
    by (simp_all add: tree_inv_def ns_def cur_def)
  from ok have ids: "map ident ns = [0..<length ns]"
    by (simp add: forest_ok_def)
  from op have dist: "distinct st"
    and mem: "\<And>i. i \<in> set st \<longleftrightarrow> i < k \<and> \<not> handled (ns ! i)"
    and ch: "chain ns st"
    by (simp_all add: open_ok_def k_def)
  have curlt: "c < length ns" if "cur = Some c" for c
    using that cur mem [of c] by (cases st) (auto simp add: k_def)
  have len: "length ns1 = length ns"
    unfolding ns1_def by (cases cur) (simp_all add: add_child_length)
  have props: "ident (ns1 ! j) = ident (ns ! j) \<and> parent (ns1 ! j) = parent (ns ! j)
      \<and> handled (ns1 ! j) = handled (ns ! j) \<and> irq (ns1 ! j) = irq (ns ! j)
      \<and> child (ns1 ! j) = child (ns ! j) @ (if cur = Some j then [length ns] else [])"
    if j: "j < length ns" for j
  proof (cases cur)
    case None
    then show ?thesis by (simp add: ns1_def)
  next
    case (Some c)
    with add_child_nth [OF ids curlt [OF Some] j, of k] show ?thesis
      by (simp add: ns1_def k_def)
  qed
  have run: "begin_node cap i s = Inr (k, s')"
    unfolding begin_node_def Let_def s'_def ns1_def n_def k_def ns_def cur_def
    using cap depth by simp
  have F: "forest_ok (ns1 @ [n])"
    by (rule forest_ok_snoc [OF ok len _ _ _ curlt]) (simp_all add: props n_def k_def)
  have "chain (ns1 @ [n]) st"
    by (rule chain_mono [OF ch]) (simp_all add: len nth_append props)
  then have C: "chain (ns1 @ [n]) (k # st)"
    using cur len by (simp add: nth_append n_def k_def)
  have "k \<notin> set st"
    using mem [of k] by simp
  with dist have D: "distinct (k # st)"
    by simp
  have M: "j \<in> set (k # st) \<longleftrightarrow> j < length (ns1 @ [n]) \<and> \<not> handled ((ns1 @ [n]) ! j)"
    for j
  proof (cases "j < k")
    case True
    with mem [of j] props [of j] len show ?thesis
      by (auto simp add: nth_append k_def)
  next
    case False
    with mem [of j] len show ?thesis
      by (auto simp add: nth_append k_def n_def)
  qed
  from C D M have O: "open_ok (k # st) (ns1 @ [n])"
    unfolding open_ok_def by blast
  have "map irq ns1 = map irq ns"
    using len props by (intro nth_equalityI) simp_all
  then have I: "map irq (ns1 @ [n]) = map irq ns @ [i]"
    by (simp add: n_def)
  from F O depth I
  have "tree_inv (k # st) s' \<and> map irq (base_irq_nodes s') = map irq ns @ [i]"
    by (simp add: tree_inv_def s'_def)
  with run show ?thesis
    unfolding k_def ns_def by blast
qed


lemma mark_handled_nth:
  assumes "map ident ns = [0..<length ns]" and "h < length ns" and "j < length ns"
  shows "ident (mark_handled h ns ! j) = ident (ns ! j)"
    and "parent (mark_handled h ns ! j) = parent (ns ! j)"
    and "child (mark_handled h ns ! j) = child (ns ! j)"
    and "irq (mark_handled h ns ! j) = irq (ns ! j)"
    and "handled (mark_handled h ns ! j) = (j = h \<or> handled (ns ! j))"
  using assms(3) unfolding mark_handled_eq [OF assms(1,2)]
  by (cases "h = j"; auto)+

lemma mark_handled_length: "length (mark_handled h ns) = length ns"
  by (simp add: mark_handled_def)

lemma forest_ok_cong:
  assumes ok: "forest_ok ns" and len: "length ns' = length ns"
    and idn: "\<And>j. j < length ns \<Longrightarrow> ident (ns' ! j) = ident (ns ! j)"
    and par: "\<And>j. j < length ns \<Longrightarrow> parent (ns' ! j) = parent (ns ! j)"
    and chi: "\<And>j. j < length ns \<Longrightarrow> child (ns' ! j) = child (ns ! j)"
  shows "forest_ok ns'"
proof -
  have "map ident ns' = map ident ns"
    using len idn by (intro nth_equalityI) simp_all
  moreover have "filter (\<lambda>j. parent (ns' ! j) = Some i) [0..<length ns]
               = filter (\<lambda>j. parent (ns ! j) = Some i) [0..<length ns]" for i
    by (rule filter_cong) (simp_all add: par)
  ultimately show ?thesis
    using ok len par chi unfolding forest_ok_def by simp
qed

lemma end_node_inv:
  assumes inv: "tree_inv (c # st) s"
  shows "tree_inv st (end_node c s)
       \<and> map irq (base_irq_nodes (end_node c s)) = map irq (base_irq_nodes s)"
proof -
  define ns where "ns = base_irq_nodes s"
  define ns' where "ns' = mark_handled c ns"
  from inv have ok: "forest_ok ns" and op: "open_ok (c # st) ns"
    and cur: "cur_irq_tree s = Some c"
    and depth: "cur_irq_tree_depth s = Suc (length st)"
    and log: "log_wakeups s"
    by (simp_all add: tree_inv_def ns_def)
  from ok have ids: "map ident ns = [0..<length ns]"
    by (simp add: forest_ok_def)
  from op have dist: "c \<notin> set st" "distinct st"
    and mem: "\<And>i. i \<in> set (c # st) \<longleftrightarrow> i < length ns \<and> \<not> handled (ns ! i)"
    and ch: "chain ns (c # st)"
    by (simp_all add: open_ok_def)
  from mem [of c] have c: "c < length ns" and nh: "\<not> handled (ns ! c)"
    by simp_all
  from ch have par: "parent (ns ! c) = (case st of [] \<Rightarrow> None | p # _ \<Rightarrow> Some p)"
    and ch': "chain ns st"
    by simp_all
  have fnd: "find (\<lambda>n. ident n = c) ns = Some (ns ! c)"
    using ids c by (rule find_ident)
  have len: "length ns' = length ns"
    by (simp add: ns'_def mark_handled_length)
  note nth = mark_handled_nth [OF ids c, folded ns'_def]
  have F: "forest_ok ns'"
    by (rule forest_ok_cong [OF ok len]) (simp_all add: nth)
  have M: "j \<in> set st \<longleftrightarrow> j < length ns' \<and> \<not> handled (ns' ! j)" for j
    using mem [of j] dist(1) len nth(5) [of j] by (cases "j < length ns") auto
  have "chain ns' st"
    by (rule chain_mono [OF ch']) (simp_all add: len nth)
  with dist(2) M have O: "open_ok st ns'"
    unfolding open_ok_def by blast
  have all: "list_all handled ns' \<longleftrightarrow> st = []"
  proof
    assume "list_all handled ns'"
    then have "\<And>j. j < length ns' \<Longrightarrow> handled (ns' ! j)"
      by (simp add: list_all_length)
    with M have "j \<notin> set st" for j by blast
    then show "st = []" by (cases st) auto
  next
    assume "st = []"
    with M show "list_all handled ns'"
      by (auto simp add: list_all_length)
  qed
  have I: "map irq ns' = map irq ns"
    using len nth(4) by (intro nth_equalityI) simp_all
  have run: "end_node c s =
      (if st = []
       then s\<lparr>base_irq_nodes := ns', cur_irq_tree := parent (ns ! c),
              cur_irq_tree_depth := length st, log_wakeups := False\<rparr>
       else s\<lparr>base_irq_nodes := ns', cur_irq_tree := parent (ns ! c),
              cur_irq_tree_depth := length st\<rparr>)"
    using fnd nh cur depth all
    unfolding end_node_def ns_def [symmetric] ns'_def [symmetric] Let_def
    by (simp add: stop_logging_wakeup_reasons_def)
  show ?thesis
    unfolding run using F O par I log
    by (cases st) (simp_all add: tree_inv_def ns_def [symmetric])
qed


lemma run_tree_nested:
  "nested cap st (length (base_irq_nodes s)) cs \<Longrightarrow> tree_inv st s \<Longrightarrow>
     tree_inv [] (run_tree cap cs s)
     \<and> map irq (base_irq_nodes (run_tree cap cs s)) = map irq (base_irq_nodes s) @ begun cs"
proof (induction cs arbitrary: st s)
  case Nil
  then show ?case by simp
next
  case (Cons a cs)
  show ?case
  proof (cases a)
    case (Begin_node i)
    with Cons.prems have cap: "length st < cap"
      and rest: "nested cap (length (base_irq_nodes s) # st) (Suc (length (base_irq_nodes s))) cs"
      by simp_all
    from begin_node_inv [OF Cons.prems(2) cap, of i] obtain s'
      where s': "begin_node cap i s = Inr (length (base_irq_nodes s), s')"
        "tree_inv (length (base_irq_nodes s) # st) s'"
        "map irq (base_irq_nodes s') = map irq (base_irq_nodes s) @ [i]"
      by blast
    from s'(3) have "length (map irq (base_irq_nodes s')) = Suc (length (base_irq_nodes s))"
      by simp
    then have "length (base_irq_nodes s') = Suc (length (base_irq_nodes s))"
      by simp
    with rest have "nested cap (length (base_irq_nodes s) # st) (length (base_irq_nodes s')) cs"
      by simp
    from Cons.IH [OF this s'(2)] s'(1,3) Begin_node show ?thesis
      by simp
  next
    case (End_node h)
    with Cons.prems(1) obtain st' where st: "st = h # st'"
      and rest: "nested cap st' (length (base_irq_nodes s)) cs"
      by (cases st) simp_all
    from end_node_inv [of h st' s] Cons.prems(2) st
    have e: "tree_inv st' (end_node h s)"
      "map irq (base_irq_nodes (end_node h s)) = map irq (base_irq_nodes s)"
      by simp_all
    from e(2) have "length (map irq (base_irq_nodes (end_node h s)))
        = length (map irq (base_irq_nodes s))"
      by simp
    then have "length (base_irq_nodes (end_node h s)) = length (base_irq_nodes s)"
      by simp
    with rest have "nested cap st' (length (base_irq_nodes (end_node h s))) cs"
      by simp
    from Cons.IH [OF this e(1)] e(2) End_node show ?thesis
      by simp
  qed
qed

lemma leaves_by_parent:
  assumes "forest_ok ns"
  shows "filter (\<lambda>n. child n = []) ns
       = filter (\<lambda>n. \<not> (\<exists>m\<in>set ns. parent m = Some (ident n))) ns"
proof (rule filter_cong [OF refl])
  fix n assume "n \<in> set ns"
  then obtain i where i: "i < length ns" "n = ns ! i"
    by (auto simp add: in_set_conv_nth)
  from assms i have "ident n = i"
    by (simp add: forest_ok_def idents_nth)
  moreover from assms i
  have "child n = filter (\<lambda>j. parent (ns ! j) = Some i) [0..<length ns]"
    by (simp add: forest_ok_def)
  moreover have "(\<exists>m\<in>set ns. parent m = Some i) = (\<exists>j<length ns. parent (ns ! j) = Some i)"
    by (metis in_set_conv_nth)
  ultimately show "(child n = []) = (\<not> (\<exists>m\<in>set ns. parent m = Some (ident n)))"
    by (auto simp add: filter_empty_conv)
qed

text \<open>
  C1. Start from the cleared forest and run a properly nested sequence of \<open>begin_node\<close>
  and \<open>end_node\<close> calls to its end. Logging has then stopped, so that
  \<open>get_wakeup_reasons_nosync\<close> returns, and it returns exactly the nodes that no node
  names as its parent, each once, in the order in which they stand in the forest. That
  order is the order of insertion: the idents count up from 0, and the interrupt numbers
  of the nodes are those of the \<open>begin_node\<close> calls in the order of the calls. The order
  of the result rests on the order of the walk taken above: \<open>build_leaf_nodes\<close> returns
  the nodes in the reverse of the order in which the walk reaches them.
\<close>

theorem collect_leaves_nested:
  assumes "nested cap [] 0 cs" and "clear_wakeup_reasons s0 = Inr s"
  shows "let s' = run_tree cap cs s; nodes = base_irq_nodes s';
             leaves = filter (\<lambda>n. \<not> (\<exists>m\<in>set nodes. parent m = Some (ident n))) nodes
         in get_wakeup_reasons_nosync s' = Inr (leaves, s'\<lparr>wakeup_irqs := leaves\<rparr>)
            \<and> map ident nodes = [0..<length nodes]
            \<and> map irq nodes = begun cs"
proof -
  from assms(2) have s: "base_irq_nodes s = []" "cur_irq_tree s = None"
    "cur_irq_tree_depth s = 0" "\<not> log_wakeups s"
    by (auto simp add: clear_wakeup_reasons_def clear_wakeup_reasons_nolock_def
        logging_wakeup_reasons_def split: if_splits)
  then have "tree_inv [] s"
    by (simp add: tree_inv_def forest_ok_def open_ok_def)
  moreover from assms(1) s(1) have "nested cap [] (length (base_irq_nodes s)) cs"
    by simp
  ultimately have inv: "tree_inv [] (run_tree cap cs s)"
    and irqs: "map irq (base_irq_nodes (run_tree cap cs s)) = begun cs"
    using run_tree_nested [of cap "[]" s cs] s(1) by simp_all
  from inv have ok: "forest_ok (base_irq_nodes (run_tree cap cs s))"
    and nolog: "\<not> log_wakeups (run_tree cap cs s)"
    by (simp_all add: tree_inv_def)
  from ok have ids: "map ident (base_irq_nodes (run_tree cap cs s))
      = [0..<length (base_irq_nodes (run_tree cap cs s))]"
    by (simp add: forest_ok_def)
  from nosync_leaves [OF nolog] leaves_by_parent [OF ok] ids irqs show ?thesis
    by (simp add: Let_def)
qed

theorem collect_leaves_nested_witness:
  "get_wakeup_reasons_nosync
      (run_tree 8 [Begin_node 17, Begin_node 5, End_node 1, End_node 0]
         (init_state :: 32 wakeup_state))
     = Inr ([node5 True],
            (init_state :: 32 wakeup_state)
              \<lparr>base_irq_nodes := [node17 True, node5 True], wakeup_irqs := [node5 True]\<rparr>)"
  using collect_leaves_nested
    [of 8 "[Begin_node 17, Begin_node 5, End_node 1, End_node 0]"
        "init_state :: 32 wakeup_state" "init_state :: 32 wakeup_state"]
  by (simp add: init_state_def node17_def node5_def clear_wakeup_reasons_def
      clear_wakeup_reasons_nolock_def logging_wakeup_reasons_def begin_node_def end_node_def
      add_child_def mark_handled_def stop_logging_wakeup_reasons_def Let_def)

end
